theory Spec2Isabelle
  imports Main "HOL-Library.Word"
begin

unbundle bit_operations_syntax

section \<open>Translation records of lupdate's clang front end (cpp\_clang.h)\<close>

text \<open>
  Text is a list of bytes. A \<open>std::string\<close> is its bytes, and a \<open>QString\<close> is
  represented by the UTF-8 bytes of its text, so that \<open>QString::fromStdString\<close> (UTF-8
  decoding) and \<open>toStdString\<close> leave the bytes as they are. That holds of every
  \<open>std::string\<close> of 7-bit characters, which is the text the development covers; the
  patterns of \<open>cleanQuote\<close> count and match characters, which are single bytes there.
  \<open>qint64\<close> is a 64-bit word read as two's complement.
\<close>

type_synonym QString = string
type_synonym qint64 = "64 word"

subsection \<open>The alias manager's function kinds\<close>

text \<open>
  The enumeration \<open>TrFunctionAliasManager::TrFunction\<close> is declared in lupdate.h, which
  is not among the sources. The constructors below are the enumerators that
  \<open>isValid\<close> names in its case labels; \<open>Function_other\<close> stands for every enumerator
  the switch does not name. \<open>trFunctionByName\<close> is a parameter of the model: a table from
  names to kinds, \<open>None\<close> for a name that is no translation function.
\<close>

datatype TrFunction =
    Function_Q_DECLARE_TR_FUNCTIONS
  | Function_tr
  | Function_trUtf8
  | Function_QT_TRANSLATE_N_NOOP
  | Function_QT_TRANSLATE_N_NOOP3
  | Function_translate
  | Function_QT_TRANSLATE_NOOP
  | Function_QT_TRANSLATE_NOOP_UTF8
  | Function_QT_TRANSLATE_NOOP3
  | Function_QT_TRANSLATE_NOOP3_UTF8
  | Function_QT_TRID_N_NOOP
  | Function_qtTrId
  | Function_QT_TRID_NOOP
  | Function_other

type_synonym TrFunctionAliasManager = "QString \<Rightarrow> TrFunction option"

subsection \<open>clang's source locations and source manager\<close>

text \<open>
  A \<open>clang::SourceLocation\<close> is its 32-bit raw encoding; the encoding 0 is the invalid
  location. The source manager belongs to the compiler front end: it is a parameter, a pair
  of lookup functions. \<open>translateFileLineCol\<close> takes \<open>unsigned\<close> line and column.
\<close>

type_synonym SourceLocation = "32 word"

definition isInvalid :: "SourceLocation \<Rightarrow> bool" where
  "isInvalid loc = (loc = 0)"

record 'f SourceManager =
  getFile :: "string \<Rightarrow> 'f"
  translateFileLineCol :: "'f \<Rightarrow> 32 word \<Rightarrow> 32 word \<Rightarrow> SourceLocation"

subsection \<open>struct TranslationRelatedStore\<close>

record TranslationRelatedStore =
  callType :: QString
  rawCode :: QString
  funcName :: QString
  locationCol :: qint64
  contextArg :: QString
  contextRetrieved :: QString
  lupdateSource :: QString
  lupdateLocationFile :: QString
  lupdateLocationLine :: qint64
  lupdateId :: QString
  lupdateSourceWhenId :: QString
  lupdateIdMetaData :: QString
  lupdateMagicMetaData :: QString
  lupdateAllMagicMetaData :: "QString \<rightharpoonup> QString"
  lupdateComment :: QString
  lupdateExtraComment :: QString
  lupdatePlural :: QString
  sourceLocation :: SourceLocation

text \<open>A default-constructed record: empty texts, line and column \<open>-1\<close>, invalid location.\<close>

definition emptyStore :: TranslationRelatedStore where
  "emptyStore = \<lparr> callType = [], rawCode = [], funcName = [], locationCol = - 1,
     contextArg = [], contextRetrieved = [], lupdateSource = [], lupdateLocationFile = [],
     lupdateLocationLine = - 1, lupdateId = [], lupdateSourceWhenId = [],
     lupdateIdMetaData = [], lupdateMagicMetaData = [], lupdateAllMagicMetaData = Map.empty,
     lupdateComment = [], lupdateExtraComment = [], lupdatePlural = [], sourceLocation = 0 \<rparr>"

text \<open>
  The switch of \<open>isValid\<close>: \<open>switchReturnsFalse\<close> holds where a case label returns
  \<open>false\<close>; everywhere else control reaches the final \<open>return\<close>.
\<close>

fun switchReturnsFalse :: "TrFunction option \<Rightarrow> TranslationRelatedStore \<Rightarrow> bool" where
  "switchReturnsFalse (Some Function_Q_DECLARE_TR_FUNCTIONS) r = (contextArg r = [])"
| "switchReturnsFalse (Some Function_tr) r = (lupdateSource r = [])"
| "switchReturnsFalse (Some Function_trUtf8) r = (lupdateSource r = [])"
| "switchReturnsFalse (Some Function_QT_TRANSLATE_N_NOOP) r =
     (contextArg r = [] \<or> lupdateSource r = [])"
| "switchReturnsFalse (Some Function_QT_TRANSLATE_N_NOOP3) r =
     (contextArg r = [] \<or> lupdateSource r = [])"
| "switchReturnsFalse (Some Function_translate) r =
     (contextArg r = [] \<or> lupdateSource r = [])"
| "switchReturnsFalse (Some Function_QT_TRANSLATE_NOOP) r =
     (contextArg r = [] \<or> lupdateSource r = [])"
| "switchReturnsFalse (Some Function_QT_TRANSLATE_NOOP_UTF8) r =
     (contextArg r = [] \<or> lupdateSource r = [])"
| "switchReturnsFalse (Some Function_QT_TRANSLATE_NOOP3) r =
     (contextArg r = [] \<or> lupdateSource r = [])"
| "switchReturnsFalse (Some Function_QT_TRANSLATE_NOOP3_UTF8) r =
     (contextArg r = [] \<or> lupdateSource r = [])"
| "switchReturnsFalse (Some Function_QT_TRID_N_NOOP) r = (lupdateId r = [])"
| "switchReturnsFalse (Some Function_qtTrId) r = (lupdateId r = [])"
| "switchReturnsFalse (Some Function_QT_TRID_NOOP) r = (lupdateId r = [])"
| "switchReturnsFalse _ r = (funcName r = ''TRANSLATOR'' \<and> lupdateComment r = [])"

definition isValid :: "TrFunctionAliasManager \<Rightarrow> TranslationRelatedStore \<Rightarrow> bool" where
  "isValid trFunctionByName r =
     (if switchReturnsFalse (trFunctionByName (funcName r)) r then False
      else lupdateLocationFile r \<noteq> [] \<and> (- 1) <s lupdateLocationLine r
           \<and> (- 1) <s locationCol r)"

text \<open>
  \<open>callLocation\<close> returns the location and leaves the record updated. The third
  component lists the queries the call makes to the source manager (file, line and column
  as passed to \<open>translateFileLineCol\<close>), in order.
\<close>

definition callLocation ::
  "'f SourceManager \<Rightarrow> TranslationRelatedStore
     \<Rightarrow> SourceLocation \<times> TranslationRelatedStore \<times> (string \<times> 32 word \<times> 32 word) list" where
  "callLocation sourceManager r =
     (if isInvalid (sourceLocation r) then
        (let sourceFile = getFile sourceManager (lupdateLocationFile r);
             line = ucast (lupdateLocationLine r);
             col = ucast (locationCol r);
             loc = translateFileLineCol sourceManager sourceFile line col;
             r' = r\<lparr>sourceLocation := loc\<rparr>
         in (sourceLocation r', r', [(lupdateLocationFile r, line, col)]))
      else (sourceLocation r, r, []))"

section \<open>Cleaning quotes (namespace LupdatePrivate)\<close>

subsection \<open>The operations of llvm::StringRef that cleanQuote uses\<close>

definition dquote :: char where
  "dquote = CHR 0x22"

definition backslash :: char where
  "backslash = CHR 0x5C"

text \<open>The default character set of \<open>StringRef::trim\<close>: space, \<open>\t \n \v \f \r\<close>.\<close>

definition isSpace :: "char \<Rightarrow> bool" where
  "isSpace c = (c \<in> {CHR 0x20, CHR 0x09, CHR 0x0A, CHR 0x0B, CHR 0x0C, CHR 0x0D})"

definition trim :: "string \<Rightarrow> string" where
  "trim s = rev (dropWhile isSpace (rev (dropWhile isSpace s)))"

text \<open>
  \<open>consume_front\<close> and \<open>consume_back\<close> return whether the text starts (ends) with the
  given prefix (suffix), and the text without it if so, unchanged if not.
\<close>

definition starts_with :: "string \<Rightarrow> string \<Rightarrow> bool" where
  "starts_with s p = (take (length p) s = p)"

definition ends_with :: "string \<Rightarrow> string \<Rightarrow> bool" where
  "ends_with s p = (length p \<le> length s \<and> drop (length s - length p) s = p)"

definition consume_front :: "string \<Rightarrow> string \<Rightarrow> bool \<times> string" where
  "consume_front s p = (if starts_with s p then (True, drop (length p) s) else (False, s))"

definition consume_back :: "string \<Rightarrow> string \<Rightarrow> bool \<times> string" where
  "consume_back s p =
     (if ends_with s p then (True, take (length s - length p) s) else (False, s))"

subsection \<open>enum QuoteCompulsary and cleanQuote(llvm::StringRef, QuoteCompulsary)\<close>

datatype QuoteCompulsary = None_quote | Left | Right | LeftAndRight

fun quoteValue :: "QuoteCompulsary \<Rightarrow> 32 word" where
  "quoteValue None_quote = 0x01"
| "quoteValue Left = 0x02"
| "quoteValue Right = 0x04"
| "quoteValue LeftAndRight = 0x02 OR 0x04"

definition cleanQuote :: "string \<Rightarrow> QuoteCompulsary \<Rightarrow> QString" where
  "cleanQuote s quote =
     (if s = [] then []
      else
        let s1 = trim s;
            (front, s2) = consume_front s1 [dquote]
        in if \<not> front \<and> (quoteValue quote AND quoteValue Left) \<noteq> 0 then []
           else
             let (back, s3) = consume_back s2 [dquote]
             in if \<not> back \<and> (quoteValue quote AND quoteValue Right) \<noteq> 0 then []
                else s3)"

subsection \<open>QString and QRegularExpression, as far as cleanQuote uses them\<close>

text \<open>
  \<open>QChar::isSpace\<close> holds of the space, of the characters 0x09 to 0x0D, of U+0085 and
  U+00A0, and of the characters of the categories Zs, Zl and Zp (U+1680, U+2000 to U+200A,
  U+2028, U+2029, U+202F, U+205F, U+3000). \<open>spaceEncodings\<close> lists their UTF-8
  encodings, and a byte is a \<open>spaceByte\<close> when it occurs in one of them.
\<close>

definition spaceEncodings :: "string list" where
  "spaceEncodings =
     [[CHR 0x09], [CHR 0x0A], [CHR 0x0B], [CHR 0x0C], [CHR 0x0D], [CHR 0x20],
      [CHR 0xC2, CHR 0x85], [CHR 0xC2, CHR 0xA0],
      [CHR 0xE1, CHR 0x9A, CHR 0x80],
      [CHR 0xE2, CHR 0x80, CHR 0x80], [CHR 0xE2, CHR 0x80, CHR 0x81],
      [CHR 0xE2, CHR 0x80, CHR 0x82], [CHR 0xE2, CHR 0x80, CHR 0x83],
      [CHR 0xE2, CHR 0x80, CHR 0x84], [CHR 0xE2, CHR 0x80, CHR 0x85],
      [CHR 0xE2, CHR 0x80, CHR 0x86], [CHR 0xE2, CHR 0x80, CHR 0x87],
      [CHR 0xE2, CHR 0x80, CHR 0x88], [CHR 0xE2, CHR 0x80, CHR 0x89],
      [CHR 0xE2, CHR 0x80, CHR 0x8A],
      [CHR 0xE2, CHR 0x80, CHR 0xA8], [CHR 0xE2, CHR 0x80, CHR 0xA9],
      [CHR 0xE2, CHR 0x80, CHR 0xAF], [CHR 0xE2, CHR 0x81, CHR 0x9F],
      [CHR 0xE3, CHR 0x80, CHR 0x80]]"

definition spaceByte :: "char \<Rightarrow> bool" where
  "spaceByte c = (c \<in> set (concat spaceEncodings))"


text \<open>
  \<open>dropSpaces es s\<close> removes from the front of \<open>s\<close> a text of \<open>es\<close> as long as
  \<open>s\<close> starts with one. \<open>QString::trimmed\<close> removes the white space at both ends:
  the encodings from the front, and the reversed encodings from the front of the reversed
  text.
\<close>

function dropSpaces :: "string list \<Rightarrow> string \<Rightarrow> string" where
  "dropSpaces es s =
     (case find (\<lambda>e. e \<noteq> [] \<and> starts_with s e) es of
        None \<Rightarrow> s
      | Some e \<Rightarrow> dropSpaces es (drop (length e) s))"
  by pat_completeness auto
termination
proof (relation "measure (\<lambda>(es, s). length s)")
  show "wf (measure (\<lambda>(es, s). length s))" by simp
next
  fix es :: "string list" and s e :: string
  assume "find (\<lambda>e. e \<noteq> [] \<and> starts_with s e) es = Some e"
  then have "e \<noteq> []" "starts_with s e"
    by (auto simp: find_Some_iff)
  then have "s \<noteq> []"
    by (auto simp: starts_with_def)
  then show "((es, drop (length e) s), (es, s)) \<in> measure (\<lambda>(es, s). length s)"
    using \<open>e \<noteq> []\<close> by simp
qed

declare dropSpaces.simps [simp del]

definition trimmed :: "QString \<Rightarrow> QString" where
  "trimmed s = rev (dropSpaces (map rev spaceEncodings) (rev (dropSpaces spaceEncodings s)))"

text \<open>\<open>QString::indexOf\<close>: the index of the first occurrence, \<open>-1\<close> if there is none.\<close>

fun indexOf :: "QString \<Rightarrow> char \<Rightarrow> int" where
  "indexOf [] c = - 1"
| "indexOf (x # xs) c =
     (if x = c then 0 else (let i = indexOf xs c in if i < 0 then - 1 else i + 1))"

text \<open>
  The constructs of the pattern syntax that the two expressions of \<open>cleanQuote\<close> are
  written in. \<open>Repeat greedy lo hi r\<close> is \<open>r{lo,hi}\<close>, with \<open>hi = None\<close> for no upper
  bound, lazy (\<open>??\<close>, \<open>+?\<close>) when \<open>greedy\<close> is false. \<open>AnyChar\<close> is the dot under
  \<open>DotMatchesEverythingOption\<close>, \<open>NotNewline\<close> the dot without it, which matches every
  character but the line feed. A word character, for \<open>\b\<close>, is a letter, a digit or the
  underscore. A back reference to a group that captured nothing fails.
\<close>

datatype regex =
    Chr char
  | OneOf "char list"
  | NoneOf "char list"
  | AnyChar
  | NotNewline
  | WordBoundary
  | Seq regex regex
  | Alt regex regex
  | Repeat bool nat "nat option" regex
  | Group nat regex
  | Backref nat

text \<open>
  A position of the backtracking matcher: the character before the position (for \<open>\b\<close>),
  the text from the position on, and the groups captured so far (latest first).
\<close>

record position =
  previous :: "char option"
  rest :: string
  groups :: "(nat \<times> string) list"

definition isWordChar :: "char \<Rightarrow> bool" where
  "isWordChar c =
     (let n = (of_char c :: nat)
      in (48 \<le> n \<and> n \<le> 57) \<or> (65 \<le> n \<and> n \<le> 90) \<or> n = 95 \<or> (97 \<le> n \<and> n \<le> 122))"

definition atWordBoundary :: "position \<Rightarrow> bool" where
  "atWordBoundary s =
     ((case previous s of None \<Rightarrow> False | Some c \<Rightarrow> isWordChar c)
      \<noteq> (case rest s of [] \<Rightarrow> False | c # _ \<Rightarrow> isWordChar c))"

definition consume :: "(char \<Rightarrow> bool) \<Rightarrow> position \<Rightarrow> position list" where
  "consume p s =
     (case rest s of
        [] \<Rightarrow> []
      | c # cs \<Rightarrow> if p c then [s\<lparr>previous := Some c, rest := cs\<rparr>] else [])"

definition skipText :: "string \<Rightarrow> position \<Rightarrow> position" where
  "skipText g s =
     s\<lparr>previous := (if g = [] then previous s else Some (last g)), rest := drop (length g) (rest s)\<rparr>"

text \<open>
  \<open>repeat f greedy lo n s\<close>: the positions after at least \<open>lo\<close> and at most \<open>n\<close>
  rounds of \<open>f\<close> from \<open>s\<close>, in the order in which backtracking tries them: a greedy
  repetition tries one more round before it tries to stop, a lazy one stops first.
\<close>

fun repeat ::
  "(position \<Rightarrow> position list) \<Rightarrow> bool \<Rightarrow> nat \<Rightarrow> nat \<Rightarrow> position \<Rightarrow> position list" where
  "repeat f greedy lo 0 s = (if lo = 0 then [s] else [])"
| "repeat f greedy lo (Suc n) s =
     (let more = concat (map (repeat f greedy (lo - 1) n) (f s))
      in if 0 < lo then more
         else if greedy then more @ [s]
         else s # more)"

text \<open>
  \<open>matchesAt r s\<close> lists the positions at which a match of \<open>r\<close> that starts at \<open>s\<close> can
  end, in the order in which the backtracking matcher finds them; the head is the match it
  reports. Every repeated sub-pattern of the two expressions consumes at least one
  character, so a repetition without upper bound makes at most as many rounds as there are
  characters left.
\<close>

primrec matchesAt :: "regex \<Rightarrow> position \<Rightarrow> position list" where
  "matchesAt (Chr c) = consume (\<lambda>x. x = c)"
| "matchesAt (OneOf cs) = consume (\<lambda>x. x \<in> set cs)"
| "matchesAt (NoneOf cs) = consume (\<lambda>x. x \<notin> set cs)"
| "matchesAt AnyChar = consume (\<lambda>x. True)"
| "matchesAt NotNewline = consume (\<lambda>x. x \<noteq> CHR 0x0A)"
| "matchesAt WordBoundary = (\<lambda>s. if atWordBoundary s then [s] else [])"
| "matchesAt (Seq a b) = (\<lambda>s. concat (map (matchesAt b) (matchesAt a s)))"
| "matchesAt (Alt a b) = (\<lambda>s. matchesAt a s @ matchesAt b s)"
| "matchesAt (Repeat greedy lo hi r) =
     (\<lambda>s. repeat (matchesAt r) greedy lo
             (case hi of None \<Rightarrow> length (rest s) | Some h \<Rightarrow> h) s)"
| "matchesAt (Group n r) =
     (\<lambda>s. map (\<lambda>s'. s'\<lparr>groups :=
                         (n, take (length (rest s) - length (rest s')) (rest s)) # groups s'\<rparr>)
             (matchesAt r s))"
| "matchesAt (Backref n) =
     (\<lambda>s. case map_of (groups s) n of
             None \<Rightarrow> []
           | Some g \<Rightarrow> if starts_with (rest s) g then [skipText g s] else [])"

text \<open>
  \<open>QRegularExpression::match\<close> searches: it tries the start positions from the left and
  reports the first match of the leftmost position that has one.
\<close>

fun searchFrom :: "regex \<Rightarrow> char option \<Rightarrow> string \<Rightarrow> position option" where
  "searchFrom r prev [] =
     (case matchesAt r \<lparr>previous = prev, rest = [], groups = []\<rparr> of
        [] \<Rightarrow> None | x # _ \<Rightarrow> Some x)"
| "searchFrom r prev (c # cs) =
     (case matchesAt r \<lparr>previous = prev, rest = c # cs, groups = []\<rparr> of
        [] \<Rightarrow> searchFrom r (Some c) cs | x # _ \<Rightarrow> Some x)"

text \<open>
  A \<open>QRegularExpression\<close> is its pattern and the numbers of its named groups; a
  \<open>QRegularExpressionMatch\<close> is \<open>None\<close> without a match, and else the named groups with
  the final position. \<open>captured\<close> of a group that captured nothing is the empty text.
\<close>

record QRegularExpression =
  pattern :: regex
  groupNames :: "(string \<times> nat) list"

type_synonym QRegularExpressionMatch = "((string \<times> nat) list \<times> position) option"

definition regexMatch :: "QRegularExpression \<Rightarrow> QString \<Rightarrow> QRegularExpressionMatch" where
  "regexMatch re subject =
     (case searchFrom (pattern re) None subject of
        None \<Rightarrow> None | Some s \<Rightarrow> Some (groupNames re, s))"

definition hasMatch :: "QRegularExpressionMatch \<Rightarrow> bool" where
  "hasMatch result = (result \<noteq> None)"

definition captured :: "QRegularExpressionMatch \<Rightarrow> string \<Rightarrow> QString" where
  "captured result name =
     (case result of
        None \<Rightarrow> []
      | Some (names, s) \<Rightarrow>
          (case map_of names name of
             None \<Rightarrow> []
           | Some n \<Rightarrow> (case map_of (groups s) n of None \<Rightarrow> [] | Some g \<Rightarrow> g)))"

subsection \<open>cleanQuote(const std::string \&)\<close>

text \<open>The encoding prefix of both patterns: \<^verbatim>\<open>(?:\bu8|\b[LuU])\<close>.\<close>

definition encodingPrefix :: regex where
  "encodingPrefix =
     Alt (Seq WordBoundary (Seq (Chr (CHR ''u'')) (Chr (CHR ''8''))))
         (Seq WordBoundary (OneOf ''LuU''))"

text \<open>
  \<^verbatim>\<open>(?:\bu8|\b[LuU])??R\"([^\(\)\\ ]{0,16})\((?<characters>.*)\)\1\"\<close>
  with \<open>DotMatchesEverythingOption\<close>, in three parts: the delimiter
  \<^verbatim>\<open>[^\(\)\\ ]{0,16}\<close> of group 1, the closing \<^verbatim>\<open>\)\1\"\<close>, and the raw literal from
  \<open>R\<close> on. The named group is group 2.
\<close>

definition rawDelimiter :: regex where
  "rawDelimiter = Repeat True 0 (Some 16) (NoneOf [CHR ''('', CHR '')'', backslash, CHR 0x20])"

definition rawClosing :: regex where
  "rawClosing = Seq (Chr (CHR '')'')) (Seq (Backref 1) (Chr dquote))"

definition rawLiteral :: regex where
  "rawLiteral =
     Seq (Chr (CHR ''R''))
    (Seq (Chr dquote)
    (Seq (Group 1 rawDelimiter)
    (Seq (Chr (CHR ''(''))
    (Seq (Group 2 (Repeat True 0 None AnyChar))
         rawClosing))))"

definition rawStringLiteral :: QRegularExpression where
  "rawStringLiteral =
     \<lparr> pattern = Seq (Repeat False 0 (Some 1) encodingPrefix) rawLiteral,
       groupNames = [(''characters'', 2)] \<rparr>"

text \<open>
  \<^verbatim>\<open>(?:\bu8|\b[LuU])+?\"(?<characters>[^\"\\]*(?:\\.[^\"\\]*)*)\"\<close>,
  in four parts: the run \<^verbatim>\<open>[^\"\\]*\<close>, the round \<^verbatim>\<open>\\.[^\"\\]*\<close> of the inner
  repetition, the body of the named group (group 1), and the literal from the opening quote
  on.
\<close>

definition plainChars :: regex where
  "plainChars = Repeat True 0 None (NoneOf [dquote, backslash])"

definition escapeRound :: regex where
  "escapeRound = Seq (Chr backslash) (Seq NotNewline plainChars)"

definition literalBody :: regex where
  "literalBody = Seq plainChars (Repeat True 0 None escapeRound)"

definition quotedLiteral :: regex where
  "quotedLiteral = Seq (Chr dquote) (Seq (Group 1 literalBody) (Chr dquote))"

definition stringLiteral :: QRegularExpression where
  "stringLiteral =
     \<lparr> pattern = Seq (Repeat False 1 None encodingPrefix) quotedLiteral,
       groupNames = [(''characters'', 1)] \<rparr>"

definition cleanQuote_token :: "string \<Rightarrow> QString" where
  "cleanQuote_token token =
     (if token = [] then []
      else
        let string = trimmed token;
            index = indexOf string dquote
        in if index \<le> 0 then cleanQuote token LeftAndRight
           else
             let result =
                   (if string ! nat (index - 1) = CHR ''R''
                    then regexMatch rawStringLiteral string
                    else regexMatch stringLiteral string)
             in if hasMatch result then captured result ''characters'' else string)"

section \<open>The specification's reading of validity and of annotation cleaning\<close>

text \<open>
  The call kinds of the specification's validity table, and the kind a record resolves to:
  the kind of its function name under the alias table, the annotation kind for the name
  \<open>TRANSLATOR\<close>, and no kind of the table otherwise.
\<close>

datatype callKind =
    DeclarativeContext | PlainText | ContextQualified | IdentifierBased | Annotation
  | Unclassified

fun kindOfFunction :: "TrFunction \<Rightarrow> callKind" where
  "kindOfFunction Function_Q_DECLARE_TR_FUNCTIONS = DeclarativeContext"
| "kindOfFunction Function_tr = PlainText"
| "kindOfFunction Function_trUtf8 = PlainText"
| "kindOfFunction Function_translate = ContextQualified"
| "kindOfFunction Function_QT_TRANSLATE_NOOP = ContextQualified"
| "kindOfFunction Function_QT_TRANSLATE_NOOP_UTF8 = ContextQualified"
| "kindOfFunction Function_QT_TRANSLATE_NOOP3 = ContextQualified"
| "kindOfFunction Function_QT_TRANSLATE_NOOP3_UTF8 = ContextQualified"
| "kindOfFunction Function_QT_TRANSLATE_N_NOOP = ContextQualified"
| "kindOfFunction Function_QT_TRANSLATE_N_NOOP3 = ContextQualified"
| "kindOfFunction Function_qtTrId = IdentifierBased"
| "kindOfFunction Function_QT_TRID_NOOP = IdentifierBased"
| "kindOfFunction Function_QT_TRID_N_NOOP = IdentifierBased"
| "kindOfFunction Function_other = Unclassified"

definition resolvedKind :: "TrFunctionAliasManager \<Rightarrow> TranslationRelatedStore \<Rightarrow> callKind" where
  "resolvedKind trFunctionByName r =
     (let k = (case trFunctionByName (funcName r) of
                 None \<Rightarrow> Unclassified | Some f \<Rightarrow> kindOfFunction f)
      in if k = Unclassified \<and> funcName r = ''TRANSLATOR'' then Annotation else k)"

text \<open>The table of section 4.3: the fields a kind requires to be non-empty.\<close>

fun fieldRule :: "callKind \<Rightarrow> TranslationRelatedStore \<Rightarrow> bool" where
  "fieldRule DeclarativeContext r = (contextArg r \<noteq> [])"
| "fieldRule PlainText r = (lupdateSource r \<noteq> [])"
| "fieldRule ContextQualified r = (contextArg r \<noteq> [] \<and> lupdateSource r \<noteq> [])"
| "fieldRule IdentifierBased r = (lupdateId r \<noteq> [])"
| "fieldRule Annotation r = (lupdateComment r \<noteq> [])"
| "fieldRule Unclassified r = True"

definition locationPresent :: "TranslationRelatedStore \<Rightarrow> bool" where
  "locationPresent r =
     (lupdateLocationFile r \<noteq> [] \<and> 0 \<le>s lupdateLocationLine r \<and> 0 \<le>s locationCol r)"

text \<open>
  Annotation cleaning as the specification words it, on the trimmed text: a mandatory quote
  that is absent gives the empty text; otherwise the quotes that are present are removed.
\<close>

definition hasLeadingQuote :: "string \<Rightarrow> bool" where
  "hasLeadingQuote t = (t \<noteq> [] \<and> hd t = dquote)"

definition hasTrailingQuote :: "string \<Rightarrow> bool" where
  "hasTrailingQuote t = (t \<noteq> [] \<and> last t = dquote)"

definition removeLeadingQuote :: "string \<Rightarrow> string" where
  "removeLeadingQuote t = (if hasLeadingQuote t then tl t else t)"

definition removeTrailingQuote :: "string \<Rightarrow> string" where
  "removeTrailingQuote t = (if hasTrailingQuote t then butlast t else t)"

fun leftMandatory :: "QuoteCompulsary \<Rightarrow> bool" where
  "leftMandatory Left = True"
| "leftMandatory LeftAndRight = True"
| "leftMandatory _ = False"

fun rightMandatory :: "QuoteCompulsary \<Rightarrow> bool" where
  "rightMandatory Right = True"
| "rightMandatory LeftAndRight = True"
| "rightMandatory _ = False"

definition stripAnnotationQuotes :: "string \<Rightarrow> QuoteCompulsary \<Rightarrow> string" where
  "stripAnnotationQuotes s requirement =
     (let t = trim s
      in if (\<not> hasLeadingQuote t \<and> leftMandatory requirement)
            \<or> (\<not> hasTrailingQuote t \<and> rightMandatory requirement)
         then []
         else removeTrailingQuote (removeLeadingQuote t))"

text \<open>
  The literal tokens the specification speaks of. An encoding prefix is one of \<open>u8\<close>,
  \<open>L\<close>, \<open>u\<close>, \<open>U\<close>. A raw delimiter has at most 16 characters, none of them a
  space, a parenthesis or a backslash. The body of an ordinary literal has no double quote
  and no backslash outside escape sequences, and an escape sequence is a backslash with one
  more character on the same line.
\<close>

definition encodingPrefixes :: "string list" where
  "encodingPrefixes = [''u8'', ''L'', ''u'', ''U'']"

definition isRawDelimiter :: "string \<Rightarrow> bool" where
  "isRawDelimiter d =
     (length d \<le> 16 \<and> list_all (\<lambda>c. c \<notin> {CHR ''('', CHR '')'', backslash, CHR 0x20}) d)"

fun escapedBody :: "string \<Rightarrow> bool" where
  "escapedBody [] = True"
| "escapedBody [c] = (c \<noteq> dquote \<and> c \<noteq> backslash)"
| "escapedBody (c # e # cs) =
     (if c = backslash then e \<noteq> CHR 0x0A \<and> escapedBody cs
      else c \<noteq> dquote \<and> escapedBody (e # cs))"



section \<open>Sample inputs\<close>

text \<open>
  An alias table with three of the standard names, a source manager that resolves every
  query to the given location (to the invalid location for 0), and a record with a location
  and nothing else.
\<close>

definition sampleAliases :: TrFunctionAliasManager where
  "sampleAliases =
     map_of [(''tr'', Function_tr), (''translate'', Function_translate),
             (''qtTrId'', Function_qtTrId)]"

definition constantManager :: "SourceLocation \<Rightarrow> string SourceManager" where
  "constantManager loc = \<lparr> getFile = (\<lambda>name. name), translateFileLineCol = (\<lambda>f l c. loc) \<rparr>"

definition locatedStore :: TranslationRelatedStore where
  "locatedStore =
     emptyStore\<lparr>lupdateLocationFile := ''main.cpp'', lupdateLocationLine := 3, locationCol := 5\<rparr>"

section \<open>Validity of a record\<close>

lemma sless_minus_one: "((- 1) <s (x::64 word)) = (0 \<le>s x)"
  by (simp add: word_sless_alt word_sle_eq) arith

lemma isValid_rule:
  "isValid al r \<longleftrightarrow> locationPresent r \<and> fieldRule (resolvedKind al r) r"
  unfolding isValid_def locationPresent_def resolvedKind_def sless_minus_one
proof (cases "al (funcName r)")
  case None
  then show "(if switchReturnsFalse (al (funcName r)) r then False
      else lupdateLocationFile r \<noteq> [] \<and> 0 \<le>s lupdateLocationLine r \<and> 0 \<le>s locationCol r) =
     ((lupdateLocationFile r \<noteq> [] \<and> 0 \<le>s lupdateLocationLine r \<and> 0 \<le>s locationCol r) \<and>
      fieldRule (let k = case al (funcName r) of None \<Rightarrow> Unclassified | Some f \<Rightarrow> kindOfFunction f
                 in if k = Unclassified \<and> funcName r = ''TRANSLATOR'' then Annotation else k) r)"
    by simp
next
  case (Some f)
  then show "(if switchReturnsFalse (al (funcName r)) r then False
      else lupdateLocationFile r \<noteq> [] \<and> 0 \<le>s lupdateLocationLine r \<and> 0 \<le>s locationCol r) =
     ((lupdateLocationFile r \<noteq> [] \<and> 0 \<le>s lupdateLocationLine r \<and> 0 \<le>s locationCol r) \<and>
      fieldRule (let k = case al (funcName r) of None \<Rightarrow> Unclassified | Some f \<Rightarrow> kindOfFunction f
                 in if k = Unclassified \<and> funcName r = ''TRANSLATOR'' then Annotation else k) r)"
    by (cases f) simp_all
qed

lemma switchReturnsFalse_fields:
  assumes "funcName r1 = funcName r2" and "contextArg r1 = contextArg r2"
    and "lupdateSource r1 = lupdateSource r2" and "lupdateId r1 = lupdateId r2"
    and "lupdateComment r1 = lupdateComment r2"
  shows "switchReturnsFalse k r1 = switchReturnsFalse k r2"
proof (cases k)
  case None
  then show ?thesis using assms by simp
next
  case (Some f)
  then show ?thesis using assms by (cases f) simp_all
qed

lemma locatedStore_fields:
  "lupdateLocationFile locatedStore = ''main.cpp''" "lupdateLocationLine locatedStore = 3"
  "locationCol locatedStore = 5" "funcName locatedStore = []" "contextArg locatedStore = []"
  "lupdateSource locatedStore = []" "lupdateId locatedStore = []"
  "lupdateComment locatedStore = []" "sourceLocation locatedStore = 0"
  by (simp_all add: locatedStore_def emptyStore_def)

lemma sle_zero_small: "(0::64 word) \<le>s 3" "(0::64 word) \<le>s 5"
  by (simp_all add: word_sle_eq)

text \<open>
  C1. A record is valid if and only if its location is present (file non-empty, line and
  column at least 0) and the field-presence rule of the kind it resolves to holds:
  the context argument for a declarative-context record, the source text for tr and trUtf8,
  both for the translate family, the id for the qtTrId family, the comment for a TRANSLATOR
  annotation.
\<close>

theorem isValid_iff_location_and_fieldRule:
  "isValid trFunctionByName r \<longleftrightarrow>
     (lupdateLocationFile r \<noteq> [] \<and> 0 \<le>s lupdateLocationLine r \<and> 0 \<le>s locationCol r)
     \<and> fieldRule (resolvedKind trFunctionByName r) r"
  using isValid_rule [of trFunctionByName r] by (simp add: locationPresent_def)

theorem isValid_iff_location_and_fieldRule_witness:
  "isValid sampleAliases (locatedStore\<lparr>funcName := ''tr'', lupdateSource := ''Hello''\<rparr>)
   \<and> \<not> isValid sampleAliases (locatedStore\<lparr>funcName := ''translate'', lupdateSource := ''Hello''\<rparr>)
   \<and> \<not> isValid sampleAliases (locatedStore\<lparr>funcName := ''TRANSLATOR''\<rparr>)"
  using isValid_iff_location_and_fieldRule
          [of sampleAliases "locatedStore\<lparr>funcName := ''tr'', lupdateSource := ''Hello''\<rparr>"]
        isValid_iff_location_and_fieldRule
          [of sampleAliases "locatedStore\<lparr>funcName := ''translate'', lupdateSource := ''Hello''\<rparr>"]
        isValid_iff_location_and_fieldRule
          [of sampleAliases "locatedStore\<lparr>funcName := ''TRANSLATOR''\<rparr>"]
  by (simp add: resolvedKind_def sampleAliases_def locatedStore_fields sle_zero_small)

text \<open>
  C5. Validity is a function of the record's own fields, under a fixed alias table: two
  records that agree on the function name, the context argument, the source text, the id,
  the comment and the location are both valid or both invalid, whatever their other fields
  hold; an earlier call of callLocation on a record does not change its validity.
\<close>

theorem isValid_decided_by_fields:
  assumes "funcName r1 = funcName r2" and "contextArg r1 = contextArg r2"
    and "lupdateSource r1 = lupdateSource r2" and "lupdateId r1 = lupdateId r2"
    and "lupdateComment r1 = lupdateComment r2"
    and "lupdateLocationFile r1 = lupdateLocationFile r2"
    and "lupdateLocationLine r1 = lupdateLocationLine r2"
    and "locationCol r1 = locationCol r2"
  shows "isValid trFunctionByName r1 = isValid trFunctionByName r2
         \<and> isValid trFunctionByName (fst (snd (callLocation sourceManager r1)))
             = isValid trFunctionByName r1"
proof
  show "isValid trFunctionByName r1 = isValid trFunctionByName r2"
    unfolding isValid_def
    using assms switchReturnsFalse_fields [of r1 r2 "trFunctionByName (funcName r2)"]
    by simp
next
  let ?r = "fst (snd (callLocation sourceManager r1))"
  have "switchReturnsFalse k ?r = switchReturnsFalse k r1" for k
    by (rule switchReturnsFalse_fields) (simp_all add: callLocation_def Let_def)
  then show "isValid trFunctionByName ?r = isValid trFunctionByName r1"
    unfolding isValid_def by (simp add: callLocation_def Let_def)
qed

theorem isValid_decided_by_fields_witness:
  "isValid sampleAliases (locatedStore\<lparr>funcName := ''qtTrId'', lupdateId := ''id1'', rawCode := ''x''\<rparr>)
     = isValid sampleAliases (locatedStore\<lparr>funcName := ''qtTrId'', lupdateId := ''id1'',
         sourceLocation := 9, lupdatePlural := ''n''\<rparr>)"
  using isValid_decided_by_fields
    [of "locatedStore\<lparr>funcName := ''qtTrId'', lupdateId := ''id1'', rawCode := ''x''\<rparr>"
        "locatedStore\<lparr>funcName := ''qtTrId'', lupdateId := ''id1'', sourceLocation := 9,
           lupdatePlural := ''n''\<rparr>"
        sampleAliases "constantManager 1"]
  by simp

text \<open>
  C8. A record whose function name resolves to no translation function, or to one that the
  switch does not name, and is not TRANSLATOR, is valid whenever its location is present: no
  source text, context, id or comment is required of it.
\<close>

theorem isValid_unrecognized_name:
  assumes "trFunctionByName (funcName r) = None
           \<or> trFunctionByName (funcName r) = Some Function_other"
    and "funcName r \<noteq> ''TRANSLATOR''"
    and "lupdateLocationFile r \<noteq> []" and "0 \<le>s lupdateLocationLine r"
    and "0 \<le>s locationCol r"
  shows "isValid trFunctionByName r"
  using assms by (auto simp: isValid_def sless_minus_one)

theorem isValid_unrecognized_name_witness:
  "isValid sampleAliases (locatedStore\<lparr>funcName := ''printf''\<rparr>)"
  by (rule isValid_unrecognized_name)
     (simp_all add: sampleAliases_def locatedStore_fields sle_zero_small)

section \<open>The cached call location\<close>

lemma callLocation_invalid:
  "isInvalid (sourceLocation r) \<Longrightarrow>
   callLocation sm r =
     (translateFileLineCol sm (getFile sm (lupdateLocationFile r))
        (ucast (lupdateLocationLine r)) (ucast (locationCol r)),
      r\<lparr>sourceLocation := translateFileLineCol sm (getFile sm (lupdateLocationFile r))
        (ucast (lupdateLocationLine r)) (ucast (locationCol r))\<rparr>,
      [(lupdateLocationFile r, ucast (lupdateLocationLine r), ucast (locationCol r))])"
  by (simp add: callLocation_def Let_def)

lemma callLocation_valid:
  "\<not> isInvalid (sourceLocation r) \<Longrightarrow> callLocation sm r = (sourceLocation r, r, [])"
  by (simp add: callLocation_def)

lemma callLocation_stored:
  "sourceLocation (fst (snd (callLocation sm r))) = fst (callLocation sm r)"
  by (simp add: callLocation_def Let_def)

lemma callLocation_same_file:
  "lupdateLocationFile (fst (snd (callLocation sm r))) = lupdateLocationFile r"
  "lupdateLocationLine (fst (snd (callLocation sm r))) = lupdateLocationLine r"
  "locationCol (fst (snd (callLocation sm r))) = locationCol r"
  by (simp_all add: callLocation_def Let_def)

text \<open>
  C6, as the specification states it, fails: a location that the front end resolves to the
  invalid location is not cached. The second call queries the front end again, and it
  returns what the source manager of the second call resolves, not the value of the first.
\<close>

theorem callLocation_second_call_counterexample:
  "\<not> snd (snd (callLocation (constantManager 0)
                  (fst (snd (callLocation (constantManager 0) locatedStore))))) = []
   \<and> fst (callLocation (constantManager 0) locatedStore) = 0
   \<and> fst (callLocation (constantManager 9)
             (fst (snd (callLocation (constantManager 0) locatedStore)))) = 9"
  by (simp add: callLocation_def Let_def constantManager_def isInvalid_def locatedStore_fields)

text \<open>
  C6, amended. callLocation resolves the location lazily: when the stored location is
  invalid, it derives the location from file, line and column through the front end and
  stores it; when the location a call returns is valid, every later call returns that stored
  location without a query to the front end, whatever source manager it is given; and with
  the same source manager, calling callLocation twice returns what calling it once returns.
\<close>

theorem callLocation_lazy_and_cached:
  "(isInvalid (sourceLocation r) \<longrightarrow>
      fst (callLocation sm r)
        = translateFileLineCol sm (getFile sm (lupdateLocationFile r))
            (ucast (lupdateLocationLine r)) (ucast (locationCol r))
      \<and> sourceLocation (fst (snd (callLocation sm r))) = fst (callLocation sm r)
      \<and> snd (snd (callLocation sm r))
          = [(lupdateLocationFile r, ucast (lupdateLocationLine r), ucast (locationCol r))])
   \<and> (\<not> isInvalid (fst (callLocation sm r)) \<longrightarrow>
        callLocation sm' (fst (snd (callLocation sm r)))
          = (fst (callLocation sm r), fst (snd (callLocation sm r)), []))
   \<and> fst (callLocation sm (fst (snd (callLocation sm r)))) = fst (callLocation sm r)"
proof (intro conjI impI)
  assume "isInvalid (sourceLocation r)"
  then show "fst (callLocation sm r)
        = translateFileLineCol sm (getFile sm (lupdateLocationFile r))
            (ucast (lupdateLocationLine r)) (ucast (locationCol r))"
    and "snd (snd (callLocation sm r))
          = [(lupdateLocationFile r, ucast (lupdateLocationLine r), ucast (locationCol r))]"
    by (simp_all add: callLocation_invalid)
next
  show "sourceLocation (fst (snd (callLocation sm r))) = fst (callLocation sm r)"
    by (rule callLocation_stored)
next
  assume "\<not> isInvalid (fst (callLocation sm r))"
  then have "\<not> isInvalid (sourceLocation (fst (snd (callLocation sm r))))"
    by (simp add: callLocation_stored)
  then show "callLocation sm' (fst (snd (callLocation sm r)))
          = (fst (callLocation sm r), fst (snd (callLocation sm r)), [])"
    by (simp add: callLocation_valid callLocation_stored)
next
  let ?r = "fst (snd (callLocation sm r))"
  show "fst (callLocation sm ?r) = fst (callLocation sm r)"
  proof (cases "isInvalid (sourceLocation ?r)")
    case True
    then have inv: "isInvalid (fst (callLocation sm r))"
      by (simp add: callLocation_stored)
    then have "isInvalid (sourceLocation r)"
      by (auto simp: callLocation_def Let_def split: if_splits)
    then show ?thesis
      using True by (simp add: callLocation_invalid)
  next
    case False
    then show ?thesis
      by (simp add: callLocation_valid callLocation_stored)
  qed
qed

theorem callLocation_lazy_and_cached_witness:
  "fst (callLocation (constantManager 7) locatedStore) = 7
   \<and> snd (snd (callLocation (constantManager 7) locatedStore)) = [(''main.cpp'', 3, 5)]
   \<and> callLocation (constantManager 9) (fst (snd (callLocation (constantManager 7) locatedStore)))
       = (7, locatedStore\<lparr>sourceLocation := 7\<rparr>, [])"
  using callLocation_lazy_and_cached [of locatedStore "constantManager 7" "constantManager 9"]
  by (simp add: isInvalid_def locatedStore_fields constantManager_def callLocation_invalid)

text \<open>
  C9. callLocation changes no field of the record but sourceLocation: the record it
  leaves is the record it was given with sourceLocation updated, so every other field
  keeps its value.
\<close>

theorem callLocation_changes_sourceLocation_only:
  "fst (snd (callLocation sm r)) = r\<lparr>sourceLocation := fst (callLocation sm r)\<rparr>
   \<and> callType (fst (snd (callLocation sm r))) = callType r
   \<and> rawCode (fst (snd (callLocation sm r))) = rawCode r
   \<and> funcName (fst (snd (callLocation sm r))) = funcName r
   \<and> locationCol (fst (snd (callLocation sm r))) = locationCol r
   \<and> contextArg (fst (snd (callLocation sm r))) = contextArg r
   \<and> contextRetrieved (fst (snd (callLocation sm r))) = contextRetrieved r
   \<and> lupdateSource (fst (snd (callLocation sm r))) = lupdateSource r
   \<and> lupdateLocationFile (fst (snd (callLocation sm r))) = lupdateLocationFile r
   \<and> lupdateLocationLine (fst (snd (callLocation sm r))) = lupdateLocationLine r
   \<and> lupdateId (fst (snd (callLocation sm r))) = lupdateId r
   \<and> lupdateSourceWhenId (fst (snd (callLocation sm r))) = lupdateSourceWhenId r
   \<and> lupdateIdMetaData (fst (snd (callLocation sm r))) = lupdateIdMetaData r
   \<and> lupdateMagicMetaData (fst (snd (callLocation sm r))) = lupdateMagicMetaData r
   \<and> lupdateAllMagicMetaData (fst (snd (callLocation sm r))) = lupdateAllMagicMetaData r
   \<and> lupdateComment (fst (snd (callLocation sm r))) = lupdateComment r
   \<and> lupdateExtraComment (fst (snd (callLocation sm r))) = lupdateExtraComment r
   \<and> lupdatePlural (fst (snd (callLocation sm r))) = lupdatePlural r"
  by (simp add: callLocation_def Let_def)

section \<open>Cleaning the quotes of an annotation\<close>

lemma starts_with_single: "starts_with t [c] \<longleftrightarrow> t \<noteq> [] \<and> hd t = c"
  by (cases t) (simp_all add: starts_with_def)

lemma ends_with_single: "ends_with t [c] \<longleftrightarrow> t \<noteq> [] \<and> last t = c"
proof (cases t rule: rev_cases)
  case Nil
  then show ?thesis by (simp add: ends_with_def)
next
  case (snoc ys y)
  then show ?thesis by (simp add: ends_with_def)
qed

lemma consume_front_quote:
  "consume_front t [dquote] = (hasLeadingQuote t, removeLeadingQuote t)"
  by (simp add: consume_front_def starts_with_single hasLeadingQuote_def
      removeLeadingQuote_def drop_Suc)

lemma consume_back_quote:
  "consume_back t [dquote] = (hasTrailingQuote t, removeTrailingQuote t)"
  by (simp add: consume_back_def ends_with_single hasTrailingQuote_def
      removeTrailingQuote_def butlast_conv_take)

lemma quoteValue_Left: "(quoteValue q AND quoteValue Left) \<noteq> 0 \<longleftrightarrow> leftMandatory q"
  by (cases q) simp_all

lemma quoteValue_Right: "(quoteValue q AND quoteValue Right) \<noteq> 0 \<longleftrightarrow> rightMandatory q"
  by (cases q) simp_all

lemma trim_Nil: "trim [] = []"
  by (simp add: trim_def)

lemma trailing_after_leading:
  "hasTrailingQuote (removeLeadingQuote t) \<longleftrightarrow> hasTrailingQuote t \<and> t \<noteq> [dquote]"
proof (cases t)
  case Nil
  then show ?thesis by (simp add: hasTrailingQuote_def removeLeadingQuote_def)
next
  case (Cons x xs)
  then show ?thesis
    by (cases xs) (auto simp: hasTrailingQuote_def removeLeadingQuote_def hasLeadingQuote_def)
qed

lemma cleanQuote_trimmed:
  "cleanQuote s q =
     (if s = [] then []
      else if \<not> hasLeadingQuote (trim s) \<and> leftMandatory q then []
      else if \<not> hasTrailingQuote (removeLeadingQuote (trim s)) \<and> rightMandatory q then []
      else removeTrailingQuote (removeLeadingQuote (trim s)))"
  by (simp add: cleanQuote_def consume_front_quote consume_back_quote Let_def
      quoteValue_Left quoteValue_Right del: quoteValue.simps)

lemma cleanQuote_refines: "cleanQuote s q = stripAnnotationQuotes s q"
proof (cases "s = []")
  case True
  then show ?thesis
    by (simp add: cleanQuote_trimmed stripAnnotationQuotes_def trim_Nil hasLeadingQuote_def
        hasTrailingQuote_def removeLeadingQuote_def removeTrailingQuote_def)
next
  case False
  show ?thesis
  proof (cases "trim s = [dquote]")
    case True
    then show ?thesis using False
      by (simp add: cleanQuote_trimmed stripAnnotationQuotes_def hasLeadingQuote_def
        hasTrailingQuote_def removeLeadingQuote_def removeTrailingQuote_def)
  next
    case ne: False
    then show ?thesis using False
      by (simp add: cleanQuote_trimmed stripAnnotationQuotes_def trailing_after_leading)
  qed
qed

lemmas quote_evaluation =
  trim_def isSpace_def hasLeadingQuote_def hasTrailingQuote_def removeLeadingQuote_def
  removeTrailingQuote_def dquote_def

text \<open>
  C4. cleanQuote on an annotation trims the surrounding whitespace; it returns the empty
  text if the leading quote is absent and Left is required, or the trailing quote is absent
  and Right is required; otherwise it returns the trimmed text without the leading and the
  trailing quote that are present. The three examples of the specification hold.
\<close>

theorem cleanQuote_annotation:
  "cleanQuote s quote = stripAnnotationQuotes s quote
   \<and> cleanQuote '' \"hello\" '' LeftAndRight = ''hello''
   \<and> cleanQuote ''hello'' Left = []
   \<and> cleanQuote ''hello'' None_quote = ''hello''"
proof (intro conjI)
  show "cleanQuote s quote = stripAnnotationQuotes s quote"
    by (rule cleanQuote_refines)
  show "cleanQuote '' \"hello\" '' LeftAndRight = ''hello''"
    by (simp add: cleanQuote_trimmed quote_evaluation)
  show "cleanQuote ''hello'' Left = []"
    by (simp add: cleanQuote_trimmed quote_evaluation)
  show "cleanQuote ''hello'' None_quote = ''hello''"
    by (simp add: cleanQuote_trimmed quote_evaluation)
qed

theorem cleanQuote_annotation_witness:
  "cleanQuote ''\"id'' Left = ''id'' \<and> cleanQuote ''\"id'' Right = []
   \<and> cleanQuote ''id\" '' Right = ''id''"
  using cleanQuote_annotation [of "''\"id''" Left] cleanQuote_annotation [of "''\"id''" Right]
    cleanQuote_annotation [of "''id\" ''" Right]
  by (simp add: stripAnnotationQuotes_def quote_evaluation)

section \<open>Cleaning the quotes of a string literal token\<close>

text \<open>
  C10. Both cleaning operations map the empty input to the empty output, the annotation
  cleaner under every quote requirement.
\<close>

theorem cleanQuote_empty_input:
  "cleanQuote [] quote = [] \<and> cleanQuote_token [] = []"
  by (simp add: cleanQuote_def cleanQuote_token_def)

subsection \<open>Single characters and runs of them\<close>

lemma consume_Cons:
  "rest s = c # cs \<Longrightarrow> consume p s = (if p c then [s\<lparr>previous := Some c, rest := cs\<rparr>] else [])"
  by (simp add: consume_def)

lemma consume_Nil: "rest s = [] \<Longrightarrow> consume p s = []"
  by (simp add: consume_def)

text \<open>The first position a greedy run of single characters reaches: the whole run.\<close>

lemma repeat_consume_first:
  "length (takeWhile p (rest s)) \<le> n \<Longrightarrow>
   \<exists>x xs. repeat (consume p) True 0 n s = x # xs
      \<and> rest x = dropWhile p (rest s) \<and> groups x = groups s"
proof (induction n arbitrary: s)
  case 0
  then have "takeWhile p (rest s) = []" by simp
  then have "dropWhile p (rest s) = rest s"
    by (metis append_Nil takeWhile_dropWhile_id)
  then show ?case by simp
next
  case (Suc n)
  show ?case
  proof (cases "rest s")
    case Nil
    then show ?thesis by (simp add: consume_Nil)
  next
    case (Cons c cs)
    show ?thesis
    proof (cases "p c")
      case False
      then show ?thesis using Cons by (simp add: consume_Cons)
    next
      case True
      let ?s1 = "s\<lparr>previous := Some c, rest := cs\<rparr>"
      have "length (takeWhile p (rest ?s1)) \<le> n"
        using Suc.prems Cons True by simp
      from Suc.IH [OF this] obtain x xs where
        "repeat (consume p) True 0 n ?s1 = x # xs" "rest x = dropWhile p cs" "groups x = groups s"
        by auto
      then show ?thesis using Cons True by (simp add: consume_Cons)
    qed
  qed
qed

text \<open>Every position of a run of single characters is the start with some characters dropped.\<close>

lemma repeat_consume_positions:
  "x \<in> set (repeat (consume p) greedy lo n s) \<Longrightarrow>
   \<exists>k. rest x = drop k (rest s) \<and> groups x = groups s"
proof (induction n arbitrary: s lo)
  case 0
  then have "x = s" by (simp split: if_splits)
  then show ?case by (intro exI [of _ 0]) simp
next
  case (Suc n)
  show ?case
  proof (cases "x = s")
    case True
    then show ?thesis by (intro exI [of _ 0]) simp
  next
    case False
    then have "x \<in> set (concat (map (repeat (consume p) greedy (lo - 1) n) (consume p s)))"
      using Suc.prems by (auto simp: Let_def split: if_splits)
    then obtain s1 where s1: "s1 \<in> set (consume p s)"
      and x: "x \<in> set (repeat (consume p) greedy (lo - 1) n s1)"
      by auto
    from s1 have c: "rest s = hd (rest s) # rest s1" "groups s1 = groups s"
      by (cases "rest s"; auto simp: consume_def split: if_splits)+
    from Suc.IH [OF x] obtain k where k: "rest x = drop k (rest s1)" "groups x = groups s1"
      by auto
    have "drop (Suc k) (rest s) = drop k (rest s1)"
      using c(1) by (metis drop_Suc_Cons)
    then show ?thesis using c k by (intro exI [of _ "Suc k"]) simp
  qed
qed


subsection \<open>Bodies of ordinary literals\<close>

lemma escapedBody_dropWhile:
  "escapedBody body \<Longrightarrow> escapedBody (dropWhile (\<lambda>x. x \<notin> set [dquote, backslash]) body)"
  by (induction body rule: escapedBody.induct) (auto split: if_splits)

lemma escapedBody_escape:
  "escapedBody (backslash # cs) \<Longrightarrow> \<exists>e cs'. cs = e # cs' \<and> e \<noteq> CHR 0x0A \<and> escapedBody cs'"
  by (cases cs) simp_all

lemma escapedBody_hd: "escapedBody body \<Longrightarrow> body \<noteq> [] \<Longrightarrow> hd body \<noteq> dquote"
  by (induction body rule: escapedBody.induct) (auto simp: dquote_def backslash_def split: if_splits)

lemma dropWhile_plain_escape_led:
  assumes "escapedBody body"
  shows "dropWhile (\<lambda>x. x \<notin> set [dquote, backslash]) body = []
         \<or> hd (dropWhile (\<lambda>x. x \<notin> set [dquote, backslash]) body) = backslash"
proof (cases "dropWhile (\<lambda>x. x \<notin> set [dquote, backslash]) body = []")
  case True
  then show ?thesis by simp
next
  case False
  let ?d = "dropWhile (\<lambda>x. x \<notin> set [dquote, backslash]) body"
  have "\<not> (hd ?d \<notin> set [dquote, backslash])"
    using False by (rule hd_dropWhile)
  moreover have "hd ?d \<noteq> dquote"
    using escapedBody_dropWhile [OF assms] False by (rule escapedBody_hd)
  ultimately show ?thesis by simp
qed

lemma dropWhile_plain_append:
  "dropWhile (\<lambda>x. x \<notin> set [dquote, backslash]) (body @ dquote # t)
     = dropWhile (\<lambda>x. x \<notin> set [dquote, backslash]) body @ dquote # t"
  by (induction body) simp_all

lemma plainChars_first:
  "\<exists>x xs. matchesAt plainChars s = x # xs
      \<and> rest x = dropWhile (\<lambda>x. x \<notin> set [dquote, backslash]) (rest s) \<and> groups x = groups s"
proof -
  have "length (takeWhile (\<lambda>x. x \<notin> set [dquote, backslash]) (rest s)) \<le> length (rest s)"
    by (rule length_takeWhile_le)
  from repeat_consume_first [OF this] show ?thesis
    by (simp add: plainChars_def del: set_simps)
qed

lemma escapeRound_no_backslash:
  "rest s = c # cs \<Longrightarrow> c \<noteq> backslash \<Longrightarrow> matchesAt escapeRound s = []"
  by (simp add: escapeRound_def consume_Cons)

lemma escapeRound_backslash:
  "rest s = backslash # e # cs \<Longrightarrow> e \<noteq> CHR 0x0A \<Longrightarrow>
   \<exists>y ys. matchesAt escapeRound s = y # ys
     \<and> rest y = dropWhile (\<lambda>x. x \<notin> set [dquote, backslash]) cs \<and> groups y = groups s"
proof -
  assume r: "rest s = backslash # e # cs" and e: "e \<noteq> CHR 0x0A"
  let ?s2 = "s\<lparr>previous := Some backslash, rest := e # cs, previous := Some e, rest := cs\<rparr>"
  have "matchesAt escapeRound s = matchesAt plainChars ?s2"
    using r e by (simp add: escapeRound_def consume_Cons)
  moreover obtain y ys where "matchesAt plainChars ?s2 = y # ys"
    "rest y = dropWhile (\<lambda>x. x \<notin> set [dquote, backslash]) (rest ?s2)" "groups y = groups ?s2"
    using plainChars_first [of ?s2] by blast
  ultimately show ?thesis by simp
qed

lemma escapeRounds_first:
  "escapedBody body \<Longrightarrow> body = [] \<or> hd body = backslash \<Longrightarrow> rest s = body @ dquote # t \<Longrightarrow>
   length body \<le> n \<Longrightarrow>
   \<exists>x xs. repeat (matchesAt escapeRound) True 0 n s = x # xs
     \<and> rest x = dquote # t \<and> groups x = groups s"
proof (induction n arbitrary: s body)
  case 0
  then show ?case by simp
next
  case (Suc n)
  show ?case
  proof (cases body)
    case Nil
    then have "matchesAt escapeRound s = []"
      using Suc.prems(3) by (intro escapeRound_no_backslash [of s dquote t])
        (simp_all add: dquote_def backslash_def)
    then show ?thesis using Nil Suc.prems(3) by simp
  next
    case (Cons c cs)
    then have c: "c = backslash" using Suc.prems(2) by simp
    then obtain e cs' where cs: "cs = e # cs'" "e \<noteq> CHR 0x0A" "escapedBody cs'"
      using Suc.prems(1) Cons escapedBody_escape by blast
    let ?p = "\<lambda>x. x \<notin> set [dquote, backslash]"
    have "rest s = backslash # e # (cs' @ dquote # t)"
      using Suc.prems(3) Cons c cs by simp
    from escapeRound_backslash [OF this cs(2)] obtain y ys where
      y: "matchesAt escapeRound s = y # ys" "rest y = dropWhile ?p (cs' @ dquote # t)"
         "groups y = groups s"
      by blast
    have ry: "rest y = dropWhile ?p cs' @ dquote # t"
      using y(2) by (simp only: dropWhile_plain_append)
    have len: "length (dropWhile ?p cs') \<le> n"
    proof -
      have "length (dropWhile ?p cs') \<le> length cs'" by (rule length_dropWhile_le)
      then show ?thesis using Suc.prems(4) Cons cs by simp
    qed
    from Suc.IH [OF escapedBody_dropWhile [OF cs(3)] dropWhile_plain_escape_led [OF cs(3)] ry len]
    obtain x xs where "repeat (matchesAt escapeRound) True 0 n y = x # xs"
      "rest x = dquote # t" "groups x = groups y"
      by blast
    then show ?thesis using y by simp
  qed
qed

lemma literalBody_first:
  assumes "escapedBody body" and "rest s = body @ dquote # t"
  shows "\<exists>x xs. matchesAt literalBody s = x # xs \<and> rest x = dquote # t \<and> groups x = groups s"
proof -
  let ?p = "\<lambda>x. x \<notin> set [dquote, backslash]"
  obtain y ys where y: "matchesAt plainChars s = y # ys" "rest y = dropWhile ?p (rest s)"
    "groups y = groups s"
    using plainChars_first [of s] by blast
  have ry: "rest y = dropWhile ?p body @ dquote # t"
    using y(2) assms(2) by (simp only: dropWhile_plain_append)
  have "length (dropWhile ?p body) \<le> length (rest y)"
    using ry by simp
  from escapeRounds_first [OF escapedBody_dropWhile [OF assms(1)]
    dropWhile_plain_escape_led [OF assms(1)] ry this]
  obtain x xs where "repeat (matchesAt escapeRound) True 0 (length (rest y)) y = x # xs"
    "rest x = dquote # t" "groups x = groups y"
    by blast
  then show ?thesis using y by (simp add: literalBody_def)
qed

lemma quotedLiteral_first:
  assumes "escapedBody body" and "rest s = dquote # body @ dquote # t"
  shows "\<exists>x xs. matchesAt quotedLiteral s = x # xs \<and> groups x = (1, body) # groups s"
proof -
  let ?s1 = "s\<lparr>previous := Some dquote, rest := body @ dquote # t\<rparr>"
  obtain y ys where y: "matchesAt literalBody ?s1 = y # ys" "rest y = dquote # t"
    "groups y = groups ?s1"
    using literalBody_first [OF assms(1), of ?s1 t] by auto
  show ?thesis
    using assms(2) y by (simp add: quotedLiteral_def consume_Cons)
qed

subsection \<open>Encoding prefixes\<close>

lemmas prefix_evaluation =
  encodingPrefix_def atWordBoundary_def isWordChar_def consume_def dquote_def

lemma encodingPrefix_rounds_first:
  assumes "prefix \<in> set encodingPrefixes"
  shows "\<exists>x xs. matchesAt (Repeat False 1 None encodingPrefix)
                  \<lparr>previous = None, rest = prefix @ dquote # w, groups = []\<rparr> = x # xs
           \<and> rest x = dquote # w \<and> groups x = []"
proof -
  consider "prefix = ''u8''" | "prefix = ''L''" | "prefix = ''u''" | "prefix = ''U''"
    using assms by (auto simp: encodingPrefixes_def)
  then show ?thesis
  proof cases
    case 1
    then show ?thesis by (simp add: prefix_evaluation)
  next
    case 2
    then show ?thesis by (simp add: prefix_evaluation)
  next
    case 3
    then show ?thesis by (simp add: prefix_evaluation)
  next
    case 4
    then show ?thesis by (simp add: prefix_evaluation)
  qed
qed

lemma searchFrom_first:
  "matchesAt r \<lparr>previous = prev, rest = str, groups = []\<rparr> = x # xs \<Longrightarrow>
   searchFrom r prev str = Some x"
  by (cases str) simp_all

lemma stringLiteral_prefixed:
  assumes "prefix \<in> set encodingPrefixes" and "escapedBody body"
  shows "captured (regexMatch stringLiteral (prefix @ dquote # body @ [dquote])) ''characters''
           = body
         \<and> hasMatch (regexMatch stringLiteral (prefix @ dquote # body @ [dquote]))"
proof -
  obtain x xs where x: "matchesAt (Repeat False 1 None encodingPrefix)
      \<lparr>previous = None, rest = prefix @ dquote # body @ [dquote], groups = []\<rparr> = x # xs"
    "rest x = dquote # body @ [dquote]" "groups x = []"
    using encodingPrefix_rounds_first [OF assms(1)] by blast
  obtain y ys where y: "matchesAt quotedLiteral x = y # ys" "groups y = (1, body) # groups x"
    using quotedLiteral_first [OF assms(2), of x "[]"] x(2) by auto
  have "matchesAt (pattern stringLiteral)
      \<lparr>previous = None, rest = prefix @ dquote # body @ [dquote], groups = []\<rparr>
      = y # (ys @ concat (map (matchesAt quotedLiteral) xs))"
    using x(1) y(1) by (simp add: stringLiteral_def)
  then have "searchFrom (pattern stringLiteral) None (prefix @ dquote # body @ [dquote]) = Some y"
    by (rule searchFrom_first)
  then show ?thesis
    using y(2) by (simp add: regexMatch_def captured_def hasMatch_def stringLiteral_def)
qed

subsection \<open>The shape of a token\<close>

lemma dropSpaces_None:
  "find (\<lambda>e. e \<noteq> [] \<and> starts_with s e) es = None \<Longrightarrow> dropSpaces es s = s"
  using dropSpaces.simps [of es s] by simp



lemma dropSpaces_unchanged:
  assumes "s = c # cs" and "\<forall>e\<in>set es. e \<noteq> [] \<longrightarrow> hd e \<noteq> c"
  shows "dropSpaces es s = s"
proof (rule dropSpaces_None)
  have "\<not> (e \<noteq> [] \<and> starts_with s e)" if "e \<in> set es" for e
  proof
    assume a: "e \<noteq> [] \<and> starts_with s e"
    then have "hd e = c"
      using assms(1) by (cases e) (auto simp: starts_with_def)
    then show False using assms(2) that a by blast
  qed
  then show "find (\<lambda>e. e \<noteq> [] \<and> starts_with s e) es = None"
    by (auto simp: find_None_iff)
qed

lemma spaceByte_hd: "e \<in> set spaceEncodings \<Longrightarrow> e \<noteq> [] \<Longrightarrow> spaceByte (hd e)"
proof -
  assume "e \<in> set spaceEncodings" "e \<noteq> []"
  then have "hd e \<in> set e" "set e \<subseteq> set (concat spaceEncodings)"
    by auto
  then show ?thesis unfolding spaceByte_def by blast
qed

lemma spaceByte_last: "e \<in> set spaceEncodings \<Longrightarrow> e \<noteq> [] \<Longrightarrow> spaceByte (last e)"
proof -
  assume "e \<in> set spaceEncodings" "e \<noteq> []"
  then have "last e \<in> set e" "set e \<subseteq> set (concat spaceEncodings)"
    by auto
  then show ?thesis unfolding spaceByte_def by blast
qed

lemma trimmed_unchanged:
  assumes "s \<noteq> []" and "\<not> spaceByte (hd s)" and "\<not> spaceByte (last s)"
  shows "trimmed s = s"
proof -
  obtain c cs where s: "s = c # cs" using assms(1) by (cases s) auto
  have front: "dropSpaces spaceEncodings s = s"
  proof (rule dropSpaces_unchanged [OF s])
    show "\<forall>e\<in>set spaceEncodings. e \<noteq> [] \<longrightarrow> hd e \<noteq> c"
      using assms(2) s spaceByte_hd by auto
  qed
  obtain d ds where r: "rev s = d # ds" using assms(1) by (cases "rev s") auto
  have "hd (rev s) = last s"
    by (simp add: hd_rev)
  then have d: "d = last s"
    using r by simp
  have "dropSpaces (map rev spaceEncodings) (rev s) = rev s"
  proof (rule dropSpaces_unchanged [OF r])
    show "\<forall>e\<in>set (map rev spaceEncodings). e \<noteq> [] \<longrightarrow> hd e \<noteq> d"
    proof (intro ballI impI)
      fix e assume "e \<in> set (map rev spaceEncodings)" "e \<noteq> []"
      then obtain e' where "e' \<in> set spaceEncodings" "e = rev e'" "e' \<noteq> []" by auto
      then have "spaceByte (hd e)"
        using spaceByte_last [of e'] by (simp add: hd_rev)
      then show "hd e \<noteq> d" using assms(3) d by auto
    qed
  qed
  then show ?thesis using front by (simp add: trimmed_def)
qed

lemma trim_unchanged:
  assumes "s \<noteq> []" and "\<not> isSpace (hd s)" and "\<not> isSpace (last s)"
  shows "trim s = s"
proof -
  have "dropWhile isSpace s = s"
    using assms(1,2) by (cases s) simp_all
  moreover have "dropWhile isSpace (rev s) = rev s"
    using assms(1,3) by (cases "rev s") (simp_all add: last_rev [symmetric] del: last_rev)
  ultimately show ?thesis by (simp add: trim_def)
qed

lemma indexOf_first: "c \<notin> set p \<Longrightarrow> indexOf (p @ c # r) c = int (length p)"
  by (induction p) (auto simp: Let_def)

lemma not_space_dquote: "\<not> spaceByte dquote" "\<not> isSpace dquote"
  by (simp_all add: spaceByte_def spaceEncodings_def isSpace_def dquote_def)

subsection \<open>Raw literals\<close>

lemma rawDelimiter_first:
  assumes "isRawDelimiter d" and "rest s = d @ CHR ''('' # w"
  shows "\<exists>x xs. matchesAt rawDelimiter s = x # xs \<and> rest x = CHR ''('' # w \<and> groups x = groups s"
proof -
  let ?p = "\<lambda>x. x \<notin> set [CHR ''('', CHR '')'', backslash, CHR 0x20]"
  have all: "\<And>x. x \<in> set d \<Longrightarrow> ?p x"
    using assms(1) by (auto simp: isRawDelimiter_def list_all_iff)
  have tw: "takeWhile ?p (rest s) = d"
    using all assms(2) by (simp add: takeWhile_append2 del: set_simps) simp
  have dw: "dropWhile ?p (rest s) = CHR ''('' # w"
    using all assms(2) by (simp add: dropWhile_append2 del: set_simps) simp
  have "length (takeWhile ?p (rest s)) \<le> 16"
    using tw assms(1) by (simp add: isRawDelimiter_def)
  from repeat_consume_first [OF this] show ?thesis
    using dw by (simp add: rawDelimiter_def del: set_simps)
qed

text \<open>
  A greedy \<open>.*\<close> followed by \<open>g\<close>: if \<open>g\<close> fails wherever less than \<open>v\<close> is left, the
  first results are those of \<open>g\<close> where exactly \<open>v\<close> is left.
\<close>

lemma repeat_any_first_success:
  assumes fail: "\<And>x w p. groups x = G \<Longrightarrow> p \<noteq> [] \<Longrightarrow> v = p @ w \<Longrightarrow> rest x = w \<Longrightarrow> g x = []"
  shows "groups s = G \<Longrightarrow> rest s = u @ v \<Longrightarrow> length (rest s) \<le> n \<Longrightarrow>
    \<exists>x xs. concat (map g (repeat (consume (\<lambda>c. True)) True 0 n s)) = g x @ xs
       \<and> rest x = v \<and> groups x = G"
proof (induction n arbitrary: s u)
  case 0
  then have "concat (map g (repeat (consume (\<lambda>c. True)) True 0 0 s)) = g s @ []" "rest s = v"
    by simp_all
  then show ?case using "0.prems"(1) by blast
next
  case (Suc n)
  let ?f = "consume (\<lambda>c. True)"
  show ?case
  proof (cases u)
    case Nil
    have "g x = []" if x: "x \<in> set (concat (map (repeat ?f True 0 n) (?f s)))" for x
    proof -
      from x obtain s1 where s1: "s1 \<in> set (?f s)" and x1: "x \<in> set (repeat ?f True 0 n s1)"
        by auto
      from s1 have c: "rest s = hd (rest s) # rest s1" "groups s1 = groups s"
        by (cases "rest s"; auto simp: consume_def split: if_splits)+
      from repeat_consume_positions [OF x1] obtain k where
        k: "rest x = drop k (rest s1)" "groups x = groups s1"
        by auto
      have v: "v = hd (rest s) # rest s1"
        using c(1) Suc.prems(2) Nil by simp
      have "v = (hd (rest s) # take k (rest s1)) @ rest x"
        using v k(1) by simp
      then show ?thesis
        using fail [of x "hd (rest s) # take k (rest s1)" "rest x"] k(2) c(2) Suc.prems(1)
        by simp
    qed
    then have "concat (map g (concat (map (repeat ?f True 0 n) (?f s)))) = []"
      by simp
    then have "concat (map g (repeat ?f True 0 (Suc n) s)) = g s @ []"
      by (simp add: Let_def)
    then show ?thesis
      using Suc.prems(1,2) Nil by (intro exI [of _ s] exI [of _ "[]"]) simp
  next
    case (Cons c u')
    let ?s1 = "s\<lparr>previous := Some c, rest := u' @ v\<rparr>"
    have f: "?f s = [?s1]"
      using Suc.prems(2) Cons by (simp add: consume_Cons)
    have "groups ?s1 = G" "rest ?s1 = u' @ v" "length (rest ?s1) \<le> n"
      using Suc.prems Cons by simp_all
    from Suc.IH [OF this] obtain x xs where
      x: "concat (map g (repeat ?f True 0 n ?s1)) = g x @ xs" "rest x = v" "groups x = G"
      by blast
    have "concat (map g (repeat ?f True 0 (Suc n) s)) = g x @ (xs @ g s)"
      using f x(1) by (simp add: Let_def)
    then show ?thesis using x(2,3) by blast
  qed
qed

lemma rawClosing_short:
  assumes "map_of (groups x) 1 = Some d" and "length (rest x) < length d + 2"
  shows "matchesAt rawClosing x = []"
proof (cases "rest x")
  case Nil
  then show ?thesis by (simp add: rawClosing_def consume_Nil)
next
  case (Cons c cs)
  show ?thesis
  proof (cases "c = CHR '')'' \<and> starts_with cs d")
    case False
    then show ?thesis using Cons assms(1)
      by (cases "c = CHR '')''") (simp_all add: rawClosing_def consume_def)
  next
    case True
    then have "take (length d) cs = d"
      by (simp add: starts_with_def)
    then have "length d = min (length cs) (length d)"
      by (metis length_take)
    then have "length d \<le> length cs"
      by simp
    then have "drop (length d) cs = []"
      using assms(2) Cons by simp
    then show ?thesis
      using Cons assms(1) True by (simp add: rawClosing_def consume_Cons skipText_def consume_Nil)
  qed
qed

lemma rawClosing_match:
  assumes "map_of (groups x) 1 = Some d" and "rest x = CHR '')'' # d @ [dquote]"
  shows "\<exists>y. matchesAt rawClosing x = [y] \<and> groups y = groups x"
  using assms by (simp add: rawClosing_def consume_Cons skipText_def starts_with_def)

lemma rawCharacters_first:
  assumes "map_of (groups z) 1 = Some d" and "rest z = body @ CHR '')'' # d @ [dquote]"
  shows "\<exists>x xs. matchesAt (Seq (Group 2 (Repeat True 0 None AnyChar)) rawClosing) z = x # xs
           \<and> groups x = (2, body) # groups z"
proof -
  let ?setg = "\<lambda>s'. s'\<lparr>groups := (2, take (length (rest z) - length (rest s')) (rest z)) # groups s'\<rparr>"
  let ?g = "\<lambda>s'. matchesAt rawClosing (?setg s')"
  let ?v = "CHR '')'' # d @ [dquote]"
  have fail: "?g x = []" if "groups x = groups z" "p \<noteq> []" "?v = p @ w" "rest x = w" for x w p
  proof (rule rawClosing_short [of _ d])
    show "map_of (groups (?setg x)) 1 = Some d"
      using that(1) assms(1) by simp
    have "length ?v = length p + length w"
      using that(3) by (metis length_append)
    then show "length (rest (?setg x)) < length d + 2"
      using that(2,4) by (cases p) simp_all
  qed
  have "\<exists>x xs. concat (map ?g (repeat (consume (\<lambda>c. True)) True 0 (length (rest z)) z))
       = ?g x @ xs \<and> rest x = ?v \<and> groups x = groups z"
  proof (rule repeat_any_first_success [where G = "groups z" and u = body])
    show "?g x = []" if "groups x = groups z" "p \<noteq> []" "?v = p @ w" "rest x = w" for x w p
      using that by (rule fail)
    show "groups z = groups z" ..
    show "rest z = body @ ?v" by (rule assms(2))
    show "length (rest z) \<le> length (rest z)" ..
  qed
  then obtain x xs where x: "concat (map ?g (repeat (consume (\<lambda>c. True)) True 0 (length (rest z)) z))
       = ?g x @ xs" "rest x = ?v" "groups x = groups z"
    by blast
  obtain y where y: "?g x = [y]" "groups y = groups (?setg x)"
    using rawClosing_match [of "?setg x" d] x(2,3) assms(1) by auto
  have "matchesAt (Seq (Group 2 (Repeat True 0 None AnyChar)) rawClosing) z = y # xs"
    using x(1) y(1) by (simp add: map_concat comp_def)
  moreover have "groups y = (2, body) # groups z"
    using y(2) x(2,3) assms(2) by simp
  ultimately show ?thesis by blast
qed

lemma rawLiteral_first:
  assumes "isRawDelimiter d"
    and "rest s = CHR ''R'' # dquote # d @ CHR ''('' # body @ CHR '')'' # d @ [dquote]"
  shows "\<exists>x xs. matchesAt rawLiteral s = x # xs \<and> groups x = (2, body) # (1, d) # groups s"
proof -
  let ?w = "body @ CHR '')'' # d @ [dquote]"
  let ?s2 = "s\<lparr>previous := Some (CHR ''R''), rest := dquote # d @ CHR ''('' # ?w,
               previous := Some dquote, rest := d @ CHR ''('' # ?w\<rparr>"
  obtain y ys where y: "matchesAt rawDelimiter ?s2 = y # ys" "rest y = CHR ''('' # ?w"
    "groups y = groups ?s2"
    using rawDelimiter_first [OF assms(1), of ?s2 ?w] by auto
  let ?y1 = "y\<lparr>groups := (1, take (length (rest ?s2) - length (rest y)) (rest ?s2)) # groups y\<rparr>"
  let ?z = "?y1\<lparr>previous := Some (CHR ''(''), rest := ?w\<rparr>"
  have gz: "groups ?z = (1, d) # groups s"
    using y(2,3) by simp
  obtain x xs where x: "matchesAt (Seq (Group 2 (Repeat True 0 None AnyChar)) rawClosing) ?z = x # xs"
    "groups x = (2, body) # groups ?z"
    using rawCharacters_first [of ?z d body] gz by auto
  have "matchesAt rawLiteral s
     = x # (xs @ concat (map (\<lambda>s'. concat (map (matchesAt (Seq (Group 2 (Repeat True 0 None AnyChar)) rawClosing))
          (consume (\<lambda>c. c = CHR ''('')
             (s'\<lparr>groups := (1, take (length (rest ?s2) - length (rest s')) (rest ?s2)) # groups s'\<rparr>)))) ys))"
    using assms(2) y(1,2) x(1)
    by (simp add: rawLiteral_def consume_Cons map_concat comp_def)
  then show ?thesis using x(2) gz by simp
qed

lemma rawLiteral_not_R: "rest s = c # cs \<Longrightarrow> c \<noteq> CHR ''R'' \<Longrightarrow> matchesAt rawLiteral s = []"
  by (simp add: rawLiteral_def consume_Cons)

lemma encodingPrefix_first_R:
  assumes "prefix \<in> set encodingPrefixes"
  shows "\<exists>x xs. matchesAt encodingPrefix
                  \<lparr>previous = None, rest = prefix @ CHR ''R'' # w, groups = []\<rparr> = x # xs
           \<and> rest x = CHR ''R'' # w \<and> groups x = []"
proof -
  consider "prefix = ''u8''" | "prefix = ''L''" | "prefix = ''u''" | "prefix = ''U''"
    using assms by (auto simp: encodingPrefixes_def)
  then show ?thesis
    by cases (simp_all add: prefix_evaluation)
qed

lemma rawStringLiteral_match:
  assumes "prefix \<in> set ([] # encodingPrefixes)" and "isRawDelimiter d"
  shows "captured (regexMatch rawStringLiteral
            (prefix @ CHR ''R'' # dquote # d @ CHR ''('' # body @ CHR '')'' # d @ [dquote]))
            ''characters'' = body
         \<and> hasMatch (regexMatch rawStringLiteral
            (prefix @ CHR ''R'' # dquote # d @ CHR ''('' # body @ CHR '')'' # d @ [dquote]))"
proof -
  let ?w = "dquote # d @ CHR ''('' # body @ CHR '')'' # d @ [dquote]"
  let ?s0 = "\<lparr>previous = None, rest = prefix @ CHR ''R'' # ?w, groups = []\<rparr>"
  have "\<exists>y ys. matchesAt (pattern rawStringLiteral) ?s0 = y # ys
          \<and> groups y = [(2, body), (1, d)]"
  proof (cases "prefix = []")
    case True
    obtain x xs where "matchesAt rawLiteral ?s0 = x # xs"
      "groups x = (2, body) # (1, d) # groups ?s0"
      using rawLiteral_first [OF assms(2), of ?s0 body] True by auto
    then show ?thesis
      by (simp add: rawStringLiteral_def)
  next
    case False
    then have p: "prefix \<in> set encodingPrefixes"
      using assms(1) by simp
    then obtain c cs where "prefix = c # cs" "c \<noteq> CHR ''R''"
      by (auto simp: encodingPrefixes_def)
    then have none: "matchesAt rawLiteral ?s0 = []"
      by (intro rawLiteral_not_R [of _ c "cs @ CHR ''R'' # ?w"]) simp_all
    obtain x xs where x: "matchesAt encodingPrefix ?s0 = x # xs" "rest x = CHR ''R'' # ?w"
      "groups x = []"
      using encodingPrefix_first_R [OF p] by blast
    obtain y ys where "matchesAt rawLiteral x = y # ys" "groups y = (2, body) # (1, d) # groups x"
      using rawLiteral_first [OF assms(2) x(2)] by blast
    then show ?thesis
      using none x(1,3) by (simp add: rawStringLiteral_def)
  qed
  then obtain y ys where y: "matchesAt (pattern rawStringLiteral) ?s0 = y # ys"
    "groups y = [(2, body), (1, d)]"
    by blast
  from y(1) have "searchFrom (pattern rawStringLiteral) None (prefix @ CHR ''R'' # ?w) = Some y"
    by (rule searchFrom_first)
  then show ?thesis
    using y(2) by (simp add: regexMatch_def captured_def hasMatch_def rawStringLiteral_def)
qed

subsection \<open>cleanQuote on the three shapes of literal\<close>

lemma cleanQuote_token_plain: "cleanQuote_token (dquote # body @ [dquote]) = body"
proof -
  let ?t = "dquote # body @ [dquote]"
  have "trim ?t = ?t"
    by (rule trim_unchanged) (simp_all add: not_space_dquote)
  then have "cleanQuote ?t LeftAndRight = body"
    by (simp add: cleanQuote_trimmed hasLeadingQuote_def removeLeadingQuote_def
        hasTrailingQuote_def removeTrailingQuote_def)
  moreover have "trimmed ?t = ?t"
    by (rule trimmed_unchanged) (simp_all add: not_space_dquote)
  ultimately show ?thesis
    by (simp add: cleanQuote_token_def)
qed

lemma cleanQuote_token_by_pattern:
  assumes "trimmed token = token" and "indexOf token dquote = int (Suc k)"
  shows "cleanQuote_token token =
     (let result = (if token ! k = CHR ''R'' then regexMatch rawStringLiteral token
                    else regexMatch stringLiteral token)
      in if hasMatch result then captured result ''characters'' else token)"
proof -
  have "token \<noteq> []" using assms(2) by auto
  then show ?thesis using assms by (simp add: cleanQuote_token_def Let_def)
qed

lemma encodingPrefixes_shape:
  assumes "prefix \<in> set encodingPrefixes"
  shows "\<exists>k. length prefix = Suc k \<and> prefix ! k \<noteq> CHR ''R''"
    and "\<not> spaceByte (hd prefix)" and "dquote \<notin> set prefix" and "CHR ''R'' \<notin> set prefix"
  using assms by (auto simp: encodingPrefixes_def spaceByte_def spaceEncodings_def dquote_def)

lemma cleanQuote_token_prefixed:
  assumes "prefix \<in> set encodingPrefixes" and "escapedBody body"
  shows "cleanQuote_token (prefix @ dquote # body @ [dquote]) = body"
proof -
  let ?t = "prefix @ dquote # body @ [dquote]"
  obtain k where k: "length prefix = Suc k" "prefix ! k \<noteq> CHR ''R''"
    using encodingPrefixes_shape(1) [OF assms(1)] by blast
  then have ne: "prefix \<noteq> []" by auto
  have t: "trimmed ?t = ?t"
    using ne encodingPrefixes_shape(2) [OF assms(1)]
    by (intro trimmed_unchanged) (simp_all add: not_space_dquote)
  have i: "indexOf ?t dquote = int (Suc k)"
    using indexOf_first [OF encodingPrefixes_shape(3) [OF assms(1)]] k(1) by simp
  have "?t ! k = prefix ! k"
    using k(1) by (simp add: nth_append)
  then show ?thesis
    using cleanQuote_token_by_pattern [OF t i] k(2) stringLiteral_prefixed [OF assms]
    by (simp add: Let_def)
qed

lemma cleanQuote_token_raw:
  assumes "prefix \<in> set ([] # encodingPrefixes)" and "isRawDelimiter d"
  shows "cleanQuote_token
           (prefix @ CHR ''R'' # dquote # d @ CHR ''('' # body @ CHR '')'' # d @ [dquote]) = body"
proof -
  let ?w = "d @ CHR ''('' # body @ CHR '')'' # d @ [dquote]"
  let ?t = "prefix @ CHR ''R'' # dquote # ?w"
  have hd: "\<not> spaceByte (hd ?t)"
  proof (cases "prefix = []")
    case True
    then show ?thesis by (simp add: spaceByte_def spaceEncodings_def)
  next
    case False
    then show ?thesis
      using encodingPrefixes_shape(2) [of prefix] assms(1) by simp
  qed
  have t: "trimmed ?t = ?t"
    using hd by (intro trimmed_unchanged) (simp_all add: not_space_dquote)
  have "dquote \<notin> set (prefix @ ''R'')"
    using encodingPrefixes_shape(3) [of prefix] assms(1) by (auto simp: dquote_def)
  from indexOf_first [OF this, of ?w]
  have i: "indexOf ?t dquote = int (Suc (length prefix))"
    by simp
  have "?t ! length prefix = CHR ''R''"
    by (simp add: nth_append)
  then show ?thesis
    using cleanQuote_token_by_pattern [OF t i] rawStringLiteral_match [OF assms]
    by (simp add: Let_def)
qed

text \<open>
  C2. cleanQuote on a string literal token returns the characters of the literal, with only
  the outer syntax stripped: a plain literal \<open>"body"\<close> gives its body; a raw literal
  \<open>R"d(body)d"\<close>, with or without encoding prefix, whose delimiter \<open>d\<close> has at most 16
  characters that are no space, parenthesis or backslash, gives the body unchanged; an
  ordinary literal with one of the prefixes \<open>u8\<close>, \<open>L\<close>, \<open>u\<close>, \<open>U\<close> gives its body
  with the escape sequences left as they are written. The two examples of the specification
  hold.
\<close>

theorem cleanQuote_token_literals:
  "cleanQuote_token (dquote # body @ [dquote]) = body
   \<and> (prefix \<in> set ([] # encodingPrefixes) \<and> isRawDelimiter d \<longrightarrow>
        cleanQuote_token
          (prefix @ CHR ''R'' # dquote # d @ CHR ''('' # body @ CHR '')'' # d @ [dquote]) = body)
   \<and> (prefix \<in> set encodingPrefixes \<and> escapedBody body \<longrightarrow>
        cleanQuote_token (prefix @ dquote # body @ [dquote]) = body)
   \<and> cleanQuote_token ''\"abc\"'' = ''abc''
   \<and> cleanQuote_token ''R\"(abc \"quoted\" abc)\"'' = ''abc \"quoted\" abc''"
proof (intro conjI impI)
  show "cleanQuote_token (dquote # body @ [dquote]) = body"
    by (rule cleanQuote_token_plain)
  show "cleanQuote_token
          (prefix @ CHR ''R'' # dquote # d @ CHR ''('' # body @ CHR '')'' # d @ [dquote]) = body"
    if "prefix \<in> set ([] # encodingPrefixes) \<and> isRawDelimiter d"
    using that by (intro cleanQuote_token_raw) simp_all
  show "cleanQuote_token (prefix @ dquote # body @ [dquote]) = body"
    if "prefix \<in> set encodingPrefixes \<and> escapedBody body"
    using that by (intro cleanQuote_token_prefixed) simp_all
  show "cleanQuote_token ''\"abc\"'' = ''abc''"
    using cleanQuote_token_plain [of "''abc''"] by (simp add: dquote_def)
  show "cleanQuote_token ''R\"(abc \"quoted\" abc)\"'' = ''abc \"quoted\" abc''"
    using cleanQuote_token_raw [of "[]" "[]" "''abc \"quoted\" abc''"]
    by (simp add: dquote_def isRawDelimiter_def)
qed

theorem cleanQuote_token_literals_witness:
  "cleanQuote_token ''u8R\"xy(a)b)xy\"'' = ''a)b''
   \<and> cleanQuote_token (''L\"a'' @ [backslash] @ ''\"b'' @ [backslash] @ ''n\"'')
       = ''a'' @ [backslash] @ ''\"b'' @ [backslash] @ ''n''"
  using cleanQuote_token_literals [of "''a)b''" "''u8''" "''xy''"]
    cleanQuote_token_literals [of "''a'' @ [backslash] @ ''\"b'' @ [backslash] @ ''n''" "''L''" "[]"]
  by (simp add: encodingPrefixes_def isRawDelimiter_def backslash_def dquote_def)

subsection \<open>Tokens that no pattern matches\<close>















subsection \<open>Trimming 7-bit text\<close>









text \<open>
  White space outside the 7-bit range is trimmed from the \<open>QString\<close> but not by
  \<open>StringRef::trim\<close>: after a no-break space (U+00A0), a quoted text is a token without
  leading quote.
\<close>

lemma cleanQuote_token_no_break_space:
  "trimmed ([CHR 0xC2, CHR 0xA0] @ ''\"abc\"'') = ''\"abc\"''
   \<and> cleanQuote_token ([CHR 0xC2, CHR 0xA0] @ ''\"abc\"'') = []"
  by code_simp




end
